theory Spec2Isabelle
  imports Main "HOL-Library.Char_ord"
begin

section \<open>IOC extraction (utils/ioc_tools.py)\<close>

text \<open>
  A Python \<open>str\<close> is modelled as a \<open>string\<close>, one \<open>char\<close> per code point; the model
  covers the code points U+0000 to U+00FF. The character classes of the \<open>re\<close> module
  (\<open>\d\<close>, \<open>\w\<close>, \<open>\s\<close>) and \<open>str.lower\<close> are written out for exactly these code points.
\<close>

subsection \<open>Data model\<close>

datatype IOCType = IP | DOMAIN | HASH | URL

datatype IOC = IOC (ioc_type: IOCType) (ioc_value: string)

datatype error = ValueError | TypeError

subsection \<open>Character classes of the \<open>re\<close> module\<close>

definition in_range :: "char \<Rightarrow> char \<Rightarrow> char \<Rightarrow> bool" where
  "in_range lo hi c \<longleftrightarrow> lo \<le> c \<and> c \<le> hi"

text \<open>\<open>\d\<close>: the decimal digits; below U+0100 these are \<open>0\<close> to \<open>9\<close>.\<close>

definition is_digit :: "char \<Rightarrow> bool" where
  "is_digit c \<longleftrightarrow> in_range (CHR ''0'') (CHR ''9'') c"

text \<open>
  \<open>\w\<close>: the alphanumeric characters and the underscore. Below U+0100 the alphanumeric
  characters are the ASCII letters and digits, U+00AA, U+00B2, U+00B3, U+00B5, U+00B9,
  U+00BA, U+00BC to U+00BE, and U+00C0 to U+00FF without U+00D7 and U+00F7.
\<close>

definition is_word :: "char \<Rightarrow> bool" where
  "is_word c \<longleftrightarrow>
     in_range (CHR ''a'') (CHR ''z'') c \<or> in_range (CHR ''A'') (CHR ''Z'') c \<or>
     in_range (CHR ''0'') (CHR ''9'') c \<or> c = CHR ''_'' \<or>
     c = CHR 0xAA \<or> c = CHR 0xB2 \<or> c = CHR 0xB3 \<or> c = CHR 0xB5 \<or>
     c = CHR 0xB9 \<or> c = CHR 0xBA \<or> in_range (CHR 0xBC) (CHR 0xBE) c \<or>
     in_range (CHR 0xC0) (CHR 0xD6) c \<or> in_range (CHR 0xD8) (CHR 0xF6) c \<or>
     in_range (CHR 0xF8) (CHR 0xFF) c"

text \<open>\<open>\s\<close>: below U+0100 the whitespace characters are U+0009 to U+000D, U+001C to
  U+0020, U+0085 and U+00A0.\<close>

definition is_space :: "char \<Rightarrow> bool" where
  "is_space c \<longleftrightarrow>
     in_range (CHR 0x09) (CHR 0x0D) c \<or> in_range (CHR 0x1C) (CHR 0x20) c \<or>
     c = CHR 0x85 \<or> c = CHR 0xA0"

text \<open>\<open>str.lower\<close> on one code point: \<open>A\<close>-\<open>Z\<close>, U+00C0 to U+00D6 and U+00D8 to U+00DE
  move up by 32.\<close>

definition lower_char :: "char \<Rightarrow> char" where
  "lower_char c =
     (if in_range (CHR ''A'') (CHR ''Z'') c \<or> in_range (CHR 0xC0) (CHR 0xD6) c \<or>
         in_range (CHR 0xD8) (CHR 0xDE) c
      then char_of (of_char c + (32::nat)) else c)"

definition lower :: "string \<Rightarrow> string" where
  "lower s = map lower_char s"

subsection \<open>A backtracking matcher for the patterns\<close>

text \<open>
  The constructs the four patterns use: a character class, sequence, alternation, greedy
  counted repetition \<open>{m,n}\<close> (\<open>None\<close> for no upper bound), \<open>\b\<close>, and the negative
  one-character lookbehind and lookahead.
\<close>

datatype re =
    Cls "char \<Rightarrow> bool"
  | Seq re re
  | Alt re re
  | Rep nat "nat option" re
  | WordB
  | NotBehind "char \<Rightarrow> bool"
  | NotAhead "char \<Rightarrow> bool"

text \<open>
  A position in the subject is a pair \<open>(l, r)\<close>: \<open>l\<close> the text to the left, reversed,
  \<open>r\<close> the text to the right.
\<close>

type_synonym pos = "string \<times> string"

definition at_boundary :: "pos \<Rightarrow> bool" where
  "at_boundary s \<longleftrightarrow>
     (case fst s of [] \<Rightarrow> False | a # _ \<Rightarrow> is_word a) \<noteq>
     (case snd s of [] \<Rightarrow> False | b # _ \<Rightarrow> is_word b)"

text \<open>
  \<open>iter f lo k s\<close>: greedy repetition of the step \<open>f\<close>, at least \<open>lo\<close> and at most
  \<open>k\<close> times; the positions it can end at, longest attempt first.
\<close>

fun iter :: "(pos \<Rightarrow> pos list) \<Rightarrow> nat \<Rightarrow> nat \<Rightarrow> pos \<Rightarrow> pos list" where
  "iter f lo 0 s = (if lo = 0 then [s] else [])"
| "iter f lo (Suc k) s =
     concat (map (iter f (lo - 1) k) (f s)) @ (if lo = 0 then [s] else [])"

text \<open>
  \<open>ends p s\<close>: the positions at which a match of \<open>p\<close> starting at \<open>s\<close> can end, in
  the order a backtracking matcher tries them. An unbounded repetition in these patterns
  has a body that consumes a character, so it runs at most once per remaining character.
\<close>

primrec ends :: "re \<Rightarrow> pos \<Rightarrow> pos list" where
  "ends (Cls p) s =
     (case snd s of [] \<Rightarrow> [] | c # r \<Rightarrow> if p c then [(c # fst s, r)] else [])"
| "ends (Seq a b) s = concat (map (ends b) (ends a s))"
| "ends (Alt a b) s = ends a s @ ends b s"
| "ends (Rep lo hi a) s =
     iter (ends a) lo (case hi of Some h \<Rightarrow> h | None \<Rightarrow> max lo (length (snd s))) s"
| "ends WordB s = (if at_boundary s then [s] else [])"
| "ends (NotBehind p) s =
     (case fst s of [] \<Rightarrow> [s] | a # _ \<Rightarrow> if p a then [] else [s])"
| "ends (NotAhead p) s =
     (case snd s of [] \<Rightarrow> [s] | b # _ \<Rightarrow> if p b then [] else [s])"

text \<open>\<open>Pattern.fullmatch\<close>: some way of matching from the start ends at the end.\<close>

definition fullmatch :: "re \<Rightarrow> string \<Rightarrow> bool" where
  "fullmatch p s \<longleftrightarrow> list_ex (\<lambda>e. snd e = []) (ends p ([], s))"

text \<open>
  \<open>Pattern.finditer\<close>: the matched substrings, left to right, not overlapping. At each
  position the match is the first way the matcher finds; the scan goes on where the match
  ended, and one character further after an empty match or no match.
\<close>

function finditer_from :: "re \<Rightarrow> pos \<Rightarrow> string list" where
  "finditer_from p (l, r) =
     (case ends p (l, r) of
        [] \<Rightarrow> (case r of [] \<Rightarrow> [] | c # r' \<Rightarrow> finditer_from p (c # l, r'))
      | (l', r') # _ \<Rightarrow>
          if length r' < length r
          then take (length r - length r') r # finditer_from p (l', r')
          else (case r of [] \<Rightarrow> [[]] | c # r'' \<Rightarrow> [] # finditer_from p (c # l, r'')))"
  by pat_completeness auto
termination
  by (relation "measure (\<lambda>(p, l, r). length r)") auto

definition finditer :: "re \<Rightarrow> string \<Rightarrow> string list" where
  "finditer p text = finditer_from p ([], text)"

subsection \<open>The patterns\<close>

text \<open>Under \<open>re.IGNORECASE\<close> a character is tested through its lower-cased form.\<close>

definition icase :: "(char \<Rightarrow> bool) \<Rightarrow> char \<Rightarrow> bool" where
  "icase p c \<longleftrightarrow> p (lower_char c)"

definition lit :: "char \<Rightarrow> re" where
  "lit x = Cls (\<lambda>c. c = x)"

definition ilit :: "char \<Rightarrow> re" where
  "ilit x = Cls (icase (\<lambda>c. c = x))"

text \<open>\<^verbatim>\<open>\b(?:\d{1,3}\.){3}\d{1,3}\b\<close>\<close>

definition IP_PATTERN :: re where
  "IP_PATTERN =
     Seq WordB
       (Seq (Rep 3 (Some 3) (Seq (Rep 1 (Some 3) (Cls is_digit)) (lit (CHR ''.''))))
         (Seq (Rep 1 (Some 3) (Cls is_digit)) WordB))"

text \<open>\<^verbatim>\<open>(?<![a-z0-9-])(?:[a-z0-9-]+\.)+[a-z]{2,}(?![a-z0-9-])\<close>, IGNORECASE\<close>

definition is_az :: "char \<Rightarrow> bool" where
  "is_az c \<longleftrightarrow> in_range (CHR ''a'') (CHR ''z'') c"

definition is_label :: "char \<Rightarrow> bool" where
  "is_label c \<longleftrightarrow> in_range (CHR ''a'') (CHR ''z'') c \<or> in_range (CHR ''0'') (CHR ''9'') c \<or> c = CHR ''-''"

definition DOMAIN_PATTERN :: re where
  "DOMAIN_PATTERN =
     Seq (NotBehind (icase is_label))
       (Seq (Rep 1 None (Seq (Rep 1 None (Cls (icase is_label))) (ilit (CHR ''.''))))
         (Seq (Rep 2 None (Cls (icase is_az))) (NotAhead (icase is_label))))"

text \<open>\<^verbatim>\<open>\b(?:[a-f0-9]{32}|[a-f0-9]{40}|[a-f0-9]{64})\b\<close>, IGNORECASE\<close>

definition is_hex :: "char \<Rightarrow> bool" where
  "is_hex c \<longleftrightarrow> in_range (CHR ''a'') (CHR ''f'') c \<or> in_range (CHR ''0'') (CHR ''9'') c"

definition HASH_PATTERN :: re where
  "HASH_PATTERN =
     Seq WordB
       (Seq (Alt (Rep 32 (Some 32) (Cls (icase is_hex)))
              (Alt (Rep 40 (Some 40) (Cls (icase is_hex)))
                   (Rep 64 (Some 64) (Cls (icase is_hex)))))
         WordB)"

text \<open>\<^verbatim>\<open>https?://[^\s/$.?#].[^\s]*\<close>, IGNORECASE. The dot matches any character but
  the newline.\<close>

definition url_first :: "char \<Rightarrow> bool" where
  "url_first c \<longleftrightarrow>
     \<not> (is_space c \<or> c = CHR ''/'' \<or> c = CHR ''$'' \<or> c = CHR ''.'' \<or> c = CHR ''?'' \<or> c = CHR ''#'')"

definition any_char :: "char \<Rightarrow> bool" where
  "any_char c \<longleftrightarrow> c \<noteq> CHR 0x0A"

definition URL_PATTERN :: re where
  "URL_PATTERN =
     Seq (ilit (CHR ''h'')) (Seq (ilit (CHR ''t'')) (Seq (ilit (CHR ''t'')) (Seq (ilit (CHR ''p''))
       (Seq (Rep 0 (Some 1) (ilit (CHR ''s'')))
         (Seq (ilit (CHR '':'')) (Seq (ilit (CHR ''/'')) (Seq (ilit (CHR ''/''))
           (Seq (Cls url_first)
             (Seq (Cls any_char) (Rep 0 None (Cls (\<lambda>c. \<not> is_space c))))))))))))"

subsection \<open>Refanging: \<^verbatim>\<open>text.replace("[.]", ".")\<close>\<close>

text \<open>\<open>str.replace\<close> scans once from the left; the occurrences it replaces do not overlap,
  and what it has written is not scanned again.\<close>

fun refang :: "string \<Rightarrow> string" where
  "refang (a # b # c # r) =
     (if a = CHR ''['' \<and> b = CHR ''.'' \<and> c = CHR '']'' then CHR ''.'' # refang r
      else a # refang (b # c # r))"
| "refang r = r"

subsection \<open>\<open>_validate_ip\<close>\<close>

text \<open>\<open>str.split(sep)\<close> with a one-character separator: always at least one part.\<close>

fun split_on :: "char \<Rightarrow> string \<Rightarrow> string list" where
  "split_on sep [] = [[]]"
| "split_on sep (c # cs) =
     (if c = sep then [] # split_on sep cs
      else (case split_on sep cs of [] \<Rightarrow> [[c]] | p # ps \<Rightarrow> (c # p) # ps))"

text \<open>
  \<open>int(s)\<close> on a string: whitespace around is dropped, then an optional sign, then decimal
  digits, where single underscores may stand between digits. Anything else raises
  \<open>ValueError\<close>. \<open>TypeError\<close> is what \<open>int\<close> raises on an argument that is no string
  or number; \<open>except ValueError\<close> does not catch it.
\<close>

definition int_space :: "char \<Rightarrow> bool" where
  "int_space c \<longleftrightarrow>
     in_range (CHR 0x09) (CHR 0x0D) c \<or> c = CHR 0x20 \<or> c = CHR 0x85 \<or> c = CHR 0xA0"

definition digit_val :: "char \<Rightarrow> int" where
  "digit_val c = int (of_char c) - 48"

fun int_digits :: "string \<Rightarrow> int \<Rightarrow> error + int" where
  "int_digits [] n = Inr n"
| "int_digits (c # cs) n =
     (if is_digit c then int_digits cs (10 * n + digit_val c)
      else if c = CHR ''_'' then
        (case cs of
           [] \<Rightarrow> Inl ValueError
         | d # ds \<Rightarrow> if is_digit d then int_digits ds (10 * n + digit_val d) else Inl ValueError)
      else Inl ValueError)"

definition int_unsigned :: "string \<Rightarrow> error + int" where
  "int_unsigned s =
     (case s of
        [] \<Rightarrow> Inl ValueError
      | c # cs \<Rightarrow> if is_digit c then int_digits cs (digit_val c) else Inl ValueError)"

definition py_int :: "string \<Rightarrow> error + int" where
  "py_int s =
     (let t = dropWhile int_space (rev (dropWhile int_space (rev s)))
      in case t of
           [] \<Rightarrow> Inl ValueError
         | c # cs \<Rightarrow>
             if c = CHR ''-'' then (case int_unsigned cs of Inl e \<Rightarrow> Inl e | Inr n \<Rightarrow> Inr (- n))
             else if c = CHR ''+'' then int_unsigned cs
             else int_unsigned t)"

text \<open>The loop over the parts: \<open>except ValueError: return False\<close>; any other exception
  leaves the function.\<close>

fun check_parts :: "string list \<Rightarrow> error + bool" where
  "check_parts [] = Inr True"
| "check_parts (part # parts) =
     (case py_int part of
        Inl ValueError \<Rightarrow> Inr False
      | Inl e \<Rightarrow> Inl e
      | Inr num \<Rightarrow> if num < 0 \<or> num > 255 then Inr False else check_parts parts)"

definition validate_ip :: "string \<Rightarrow> error + bool" where
  "validate_ip ip =
     (let parts = split_on (CHR ''.'') ip
      in if length parts \<noteq> 4 then Inr False else check_parts parts)"

subsection \<open>\<open>validate_iocs\<close>\<close>

text \<open>The four loops over the matches, each adding to \<open>results\<close>.\<close>

fun ip_loop :: "string list \<Rightarrow> IOC set \<Rightarrow> error + IOC set" where
  "ip_loop [] results = Inr results"
| "ip_loop (v # ms) results =
     (case validate_ip v of
        Inl e \<Rightarrow> Inl e
      | Inr ok \<Rightarrow> ip_loop ms (if ok then insert (IOC IP v) results else results))"

fun domain_loop :: "string list \<Rightarrow> IOC set \<Rightarrow> IOC set" where
  "domain_loop [] results = results"
| "domain_loop (m # ms) results =
     (let v = lower m
      in if fullmatch IP_PATTERN v then domain_loop ms results
         else domain_loop ms (insert (IOC DOMAIN v) results))"

fun add_loop :: "IOCType \<Rightarrow> string list \<Rightarrow> IOC set \<Rightarrow> IOC set" where
  "add_loop ty [] results = results"
| "add_loop ty (m # ms) results = add_loop ty ms (insert (IOC ty m) results)"

definition validate_iocs :: "string \<Rightarrow> error + IOC set" where
  "validate_iocs text =
     (if text = [] then Inr {}
      else
        let t = refang text
        in case ip_loop (finditer IP_PATTERN t) {} of
             Inl e \<Rightarrow> Inl e
           | Inr results \<Rightarrow>
               Inr (add_loop URL (finditer URL_PATTERN t)
                     (add_loop HASH (finditer HASH_PATTERN t)
                       (domain_loop (finditer DOMAIN_PATTERN t) results))))"

text \<open>The operation the specification calls \<open>extract\<close>: the set \<open>validate_iocs\<close> returns.\<close>

definition extract_iocs :: "string \<Rightarrow> IOC set" where
  "extract_iocs text = (case validate_iocs text of Inr results \<Rightarrow> results | Inl e \<Rightarrow> {})"

subsection \<open>Notions used in the statements\<close>

text \<open>\<open>consumes s w s'\<close>: going from position \<open>s\<close> to position \<open>s'\<close> reads exactly \<open>w\<close>.\<close>

definition consumes :: "pos \<Rightarrow> string \<Rightarrow> pos \<Rightarrow> bool" where
  "consumes s w s' \<longleftrightarrow> fst s' = rev w @ fst s \<and> snd s = w @ snd s'"

text \<open>
  The octet rule in the words of the specification: splitting on \<open>.\<close> yields exactly four
  parts, each parsing as a base-10 integer in the inclusive range 0 to 255.
\<close>

definition octet_ok :: "string \<Rightarrow> bool" where
  "octet_ok part = (case py_int part of Inl e \<Rightarrow> False | Inr num \<Rightarrow> 0 \<le> num \<and> num \<le> 255)"

definition octets_valid :: "string \<Rightarrow> bool" where
  "octets_valid v \<longleftrightarrow>
     (let parts = split_on (CHR ''.'') v in length parts = 4 \<and> list_all octet_ok parts)"

text \<open>\<open>validate_iocs\<close> with the check \<open>if _IP_PATTERN.fullmatch(value): continue\<close> taken
  out of the domain loop; everything else as above.\<close>

fun domain_loop_nofilter :: "string list \<Rightarrow> IOC set \<Rightarrow> IOC set" where
  "domain_loop_nofilter [] results = results"
| "domain_loop_nofilter (m # ms) results =
     (let v = lower m in domain_loop_nofilter ms (insert (IOC DOMAIN v) results))"

definition validate_iocs_nofilter :: "string \<Rightarrow> error + IOC set" where
  "validate_iocs_nofilter text =
     (if text = [] then Inr {}
      else
        let t = refang text
        in case ip_loop (finditer IP_PATTERN t) {} of
             Inl e \<Rightarrow> Inl e
           | Inr results \<Rightarrow>
               Inr (add_loop URL (finditer URL_PATTERN t)
                     (add_loop HASH (finditer HASH_PATTERN t)
                       (domain_loop_nofilter (finditer DOMAIN_PATTERN t) results))))"

section \<open>Properties of the matcher\<close>

lemma consumes_Nil: "consumes s [] s' \<longleftrightarrow> s' = s"
  by (auto simp: consumes_def prod_eq_iff)

lemma consumes_trans: "consumes s w1 m \<Longrightarrow> consumes m w2 s' \<Longrightarrow> consumes s (w1 @ w2) s'"
  by (simp add: consumes_def)

lemma consumes_length: "consumes s w s' \<Longrightarrow> length (snd s) = length w + length (snd s')"
  by (simp add: consumes_def)

lemma iter_consumes:
  assumes step: "\<And>s s'. s' \<in> set (f s) \<Longrightarrow> \<exists>w. consumes s w s'"
  shows "s' \<in> set (iter f lo k s) \<Longrightarrow> \<exists>w. consumes s w s'"
proof (induction k arbitrary: lo s)
  case 0
  then have "s' = s" by (auto split: if_splits)
  then show ?case using consumes_Nil by blast
next
  case (Suc k)
  from Suc.prems consider
    (go) m where "m \<in> set (f s)" "s' \<in> set (iter f (lo - 1) k m)" | (stop) "s' = s"
    by (auto split: if_splits)
  then show ?case
  proof cases
    case go
    from step [OF go(1)] obtain w1 where "consumes s w1 m" ..
    moreover from Suc.IH [OF go(2)] obtain w2 where "consumes m w2 s'" ..
    ultimately show ?thesis by (blast intro: consumes_trans)
  next
    case stop
    then show ?thesis using consumes_Nil by blast
  qed
qed

lemma ends_Cls_iff:
  "s' \<in> set (ends (Cls P) s) \<longleftrightarrow> (\<exists>c. P c \<and> consumes s [c] s')"
  by (cases s; cases s') (auto simp: consumes_def split: list.splits)

lemma ends_Seq_iff:
  "s' \<in> set (ends (Seq a b) s) \<longleftrightarrow> (\<exists>m \<in> set (ends a s). s' \<in> set (ends b m))"
  by auto

lemma ends_consumes: "s' \<in> set (ends p s) \<Longrightarrow> \<exists>w. consumes s w s'"
proof (induction p arbitrary: s s')
  case (Cls P)
  then show ?case unfolding ends_Cls_iff by blast
next
  case (Seq a b)
  then obtain m where "m \<in> set (ends a s)" "s' \<in> set (ends b m)" by auto
  with Seq.IH show ?case by (blast intro: consumes_trans)
next
  case (Alt a b)
  from Alt.prems have "s' \<in> set (ends a s) \<or> s' \<in> set (ends b s)" by simp
  with Alt.IH show ?case by blast
next
  case (Rep lo hi a)
  then show ?case using iter_consumes [of "ends a"] by auto
next
  case WordB
  then have "s' = s" by (auto split: if_splits)
  then show ?case using consumes_Nil by blast
next
  case (NotBehind P)
  then have "s' = s" by (auto split: if_splits list.splits)
  then show ?case using consumes_Nil by blast
next
  case (NotAhead P)
  then have "s' = s" by (auto split: if_splits list.splits)
  then show ?case using consumes_Nil by blast
qed

lemma iter_Cls_iff:
  "s' \<in> set (iter (ends (Cls P)) lo k s) \<longleftrightarrow>
     (\<exists>w. consumes s w s' \<and> lo \<le> length w \<and> length w \<le> k \<and> (\<forall>c\<in>set w. P c))"
proof (induction k arbitrary: lo s)
  case 0
  show ?case by (auto simp: consumes_Nil)
next
  case (Suc k)
  show ?case
  proof
    assume "s' \<in> set (iter (ends (Cls P)) lo (Suc k) s)"
    then consider
      (go) m where "m \<in> set (ends (Cls P) s)" "s' \<in> set (iter (ends (Cls P)) (lo - 1) k m)"
      | (stop) "lo = 0" "s' = s"
      by (auto split: if_splits)
    then show "\<exists>w. consumes s w s' \<and> lo \<le> length w \<and> length w \<le> Suc k \<and> (\<forall>c\<in>set w. P c)"
    proof cases
      case go
      from go(1) obtain c where c: "P c" "consumes s [c] m" unfolding ends_Cls_iff by blast
      from go(2) obtain w where w: "consumes m w s'" "lo - 1 \<le> length w" "length w \<le> k" "\<forall>c\<in>set w. P c"
        unfolding Suc.IH by blast
      from c w have "consumes s (c # w) s'" using consumes_trans [of s "[c]" m w s'] by simp
      with c w show ?thesis by (intro exI [of _ "c # w"]) auto
    next
      case stop
      then show ?thesis by (intro exI [of _ "[]"]) (simp add: consumes_Nil)
    qed
  next
    assume "\<exists>w. consumes s w s' \<and> lo \<le> length w \<and> length w \<le> Suc k \<and> (\<forall>c\<in>set w. P c)"
    then obtain w where w: "consumes s w s'" "lo \<le> length w" "length w \<le> Suc k" "\<forall>c\<in>set w. P c"
      by blast
    show "s' \<in> set (iter (ends (Cls P)) lo (Suc k) s)"
    proof (cases w)
      case Nil
      with w show ?thesis by (simp add: consumes_Nil)
    next
      case (Cons c w')
      define m where "m = (c # fst s, w' @ snd s')"
      from w Cons have 1: "consumes s [c] m" and 2: "consumes m w' s'"
        by (simp_all add: consumes_def m_def)
      from w Cons 1 have "m \<in> set (ends (Cls P) s)" unfolding ends_Cls_iff by auto
      moreover from w Cons 2 have "s' \<in> set (iter (ends (Cls P)) (lo - 1) k m)"
        unfolding Suc.IH by (intro exI [of _ w']) auto
      ultimately show ?thesis by auto
    qed
  qed
qed

lemma ends_WordB_iff: "s' \<in> set (ends WordB s) \<longleftrightarrow> s' = s \<and> at_boundary s"
  by auto

lemma ends_NotBehind_iff:
  "s' \<in> set (ends (NotBehind P) s) \<longleftrightarrow> s' = s \<and> (fst s = [] \<or> \<not> P (hd (fst s)))"
  by (auto split: list.splits)

lemma ends_NotAhead_iff:
  "s' \<in> set (ends (NotAhead P) s) \<longleftrightarrow> s' = s \<and> (snd s = [] \<or> \<not> P (hd (snd s)))"
  by (auto split: list.splits)

lemma ends_Alt_iff:
  "s' \<in> set (ends (Alt a b) s) \<longleftrightarrow> s' \<in> set (ends a s) \<or> s' \<in> set (ends b s)"
  by simp

lemma ends_Rep_Cls_Some_iff:
  "s' \<in> set (ends (Rep lo (Some hi) (Cls P)) s) \<longleftrightarrow>
     (\<exists>w. consumes s w s' \<and> lo \<le> length w \<and> length w \<le> hi \<and> (\<forall>c\<in>set w. P c))"
  by (simp add: iter_Cls_iff)

lemma ends_Rep_Cls_None_iff:
  "s' \<in> set (ends (Rep lo None (Cls P)) s) \<longleftrightarrow>
     (\<exists>w. consumes s w s' \<and> lo \<le> length w \<and> (\<forall>c\<in>set w. P c))"
proof -
  have "length w \<le> max lo (length (snd s))" if "consumes s w s'" for w
    using consumes_length [OF that] by simp
  then show ?thesis by (auto simp: iter_Cls_iff)
qed

lemma finditer_from_sound:
  "v \<in> set (finditer_from p (l, r)) \<Longrightarrow>
     \<exists>u post es. r = u @ v @ post \<and> ends p (rev u @ l, v @ post) = (rev v @ rev u @ l, post) # es"
proof (induction p "(l, r)" arbitrary: l r rule: finditer_from.induct)
  case (1 p l r)
  show ?case
  proof (cases "ends p (l, r)")
    case Nil
    show ?thesis
    proof (cases r)
      case Nil': Nil
      with Nil "1.prems" show ?thesis by simp
    next
      case (Cons c r')
      with Nil "1.prems" have "v \<in> set (finditer_from p (c # l, r'))" by simp
      from "1.hyps"(1) [OF Nil Cons this] obtain u post es where
        "r' = u @ v @ post" "ends p (rev u @ c # l, v @ post) = (rev v @ rev u @ c # l, post) # es"
        by blast
      with Cons show ?thesis by (intro exI [of _ "c # u"] exI [of _ post] exI [of _ es]) simp
    qed
  next
    case (Cons e es)
    obtain l' r' where e: "e = (l', r')" by (cases e)
    from Cons e have "e \<in> set (ends p (l, r))" by simp
    then obtain w where "consumes (l, r) w e" using ends_consumes by blast
    with e have w: "l' = rev w @ l" "r = w @ r'" by (simp_all add: consumes_def)
    show ?thesis
    proof (cases "length r' < length r")
      case True
      with w have tk: "take (length r - length r') r = w" by simp
      from "1.prems" Cons e True tk consider "v = w" | "v \<in> set (finditer_from p (l', r'))"
        by auto
      then show ?thesis
      proof cases
        case 1
        with Cons e w show ?thesis by (intro exI [of _ "[]"] exI [of _ r'] exI [of _ es]) simp
      next
        case 2
        from "1.hyps"(2) [OF Cons e [symmetric] True 2] obtain u post es' where
          "r' = u @ v @ post" "ends p (rev u @ l', v @ post) = (rev v @ rev u @ l', post) # es'"
          by blast
        with w show ?thesis by (intro exI [of _ "w @ u"] exI [of _ post] exI [of _ es']) simp
      qed
    next
      case False
      with w have wn: "w = []" by simp
      show ?thesis
      proof (cases r)
        case Nil
        with "1.prems" Cons e False wn w show ?thesis by auto
      next
        case Cons': (Cons c r'')
        from "1.prems" Cons e False Cons' consider "v = []" | "v \<in> set (finditer_from p (c # l, r''))"
          by auto
        then show ?thesis
        proof cases
          case 1
          with Cons e w wn show ?thesis by (intro exI [of _ "[]"] exI [of _ r] exI [of _ es]) simp
        next
          case 2
          from "1.hyps"(3) [OF Cons e [symmetric] False Cons' 2] obtain u post es' where
            "r'' = u @ v @ post" "ends p (rev u @ c # l, v @ post) = (rev v @ rev u @ c # l, post) # es'"
            by blast
          with Cons' show ?thesis by (intro exI [of _ "c # u"] exI [of _ post] exI [of _ es']) simp
        qed
      qed
    qed
  qed
qed

lemma finditer_sound:
  assumes "v \<in> set (finditer p t)"
  shows "\<exists>pre post. t = pre @ v @ post \<and> (rev v @ rev pre, post) \<in> set (ends p (rev pre, v @ post))"
proof -
  from assms finditer_from_sound [of v p "[]" t] obtain u post es where
    "t = u @ v @ post" "ends p (rev u, v @ post) = (rev v @ rev u, post) # es"
    by (auto simp: finditer_def)
  then show ?thesis by (intro exI [of _ u] exI [of _ post]) simp
qed

lemma consumes_at: "consumes (l, v @ post) w (rev v @ l, post) \<longleftrightarrow> w = v"
  by (auto simp: consumes_def)

lemma finditer_from_skip:
  assumes cross: "\<And>u1 u2 e. u = u1 @ u2 \<Longrightarrow> u2 \<noteq> [] \<Longrightarrow> e \<in> set (ends p (rev u1 @ l, u2 @ r))
                   \<Longrightarrow> length r \<le> length (snd e)"
  shows "set (finditer_from p (rev u @ l, r)) \<subseteq> set (finditer_from p (l, u @ r))"
  using cross
proof (induction "length u" arbitrary: u l rule: less_induct)
  case less
  show ?case
  proof (cases u)
    case Nil
    then show ?thesis by simp
  next
    case (Cons c u')
    have step: "set (finditer_from p (rev u @ l, r)) \<subseteq> set (finditer_from p (c # l, u' @ r))"
    proof -
      have "set (finditer_from p (rev u' @ c # l, r)) \<subseteq> set (finditer_from p (c # l, u' @ r))"
      proof (rule less.hyps)
        show "length u' < length u" using Cons by simp
      next
        fix u1 u2 e
        assume a: "u' = u1 @ u2" "u2 \<noteq> []" "e \<in> set (ends p (rev u1 @ c # l, u2 @ r))"
        from a(1) Cons have "u = (c # u1) @ u2" by simp
        from less.prems [OF this a(2)] a(3) show "length r \<le> length (snd e)" by simp
      qed
      with Cons show ?thesis by simp
    qed
    show ?thesis
    proof (cases "ends p (l, u @ r)")
      case Nil
      with Cons step show ?thesis by simp
    next
      case Cons2: (Cons e es)
      obtain l' r' where e: "e = (l', r')" by (cases e)
      from Cons2 have mem: "e \<in> set (ends p (l, u @ r))" by simp
      then obtain w where "consumes (l, u @ r) w e" using ends_consumes by blast
      with e have w: "l' = rev w @ l" "u @ r = w @ r'" by (simp_all add: consumes_def)
      from less.prems [of "[]" u e] Cons mem e have len: "length r \<le> length r'" by simp
      show ?thesis
      proof (cases "length r' < length (u @ r)")
        case False
        with Cons2 e Cons step show ?thesis by auto
      next
        case True
        from w len obtain u'' where u'': "u = w @ u''" "r' = u'' @ r"
          by (auto simp: append_eq_append_conv2)
        from True w have wne: "w \<noteq> []" by auto
        have "set (finditer_from p (rev u'' @ l', r)) \<subseteq> set (finditer_from p (l', u'' @ r))"
        proof (rule less.hyps)
          show "length u'' < length u" using u'' wne by simp
        next
          fix u1 u2 e
          assume a: "u'' = u1 @ u2" "u2 \<noteq> []" "e \<in> set (ends p (rev u1 @ l', u2 @ r))"
          from a(1) u'' have "u = (w @ u1) @ u2" by simp
          from less.prems [OF this a(2)] a(3) w show "length r \<le> length (snd e)" by simp
        qed
        moreover from True w have "take (length (u @ r) - length r') (u @ r) = w" by simp
        ultimately show ?thesis using Cons2 e True u'' w by auto
      qed
    qed
  qed
qed

section \<open>Refanging, octet validation and the loops\<close>

lemma refang_fix: "\<nexists>u v. t = u @ ''[.]'' @ v \<Longrightarrow> refang t = t"
proof (induction t rule: refang.induct)
  case (1 a b c r)
  have nb: "\<not> (a = CHR ''['' \<and> b = CHR ''.'' \<and> c = CHR '']'')"
  proof
    assume "a = CHR ''['' \<and> b = CHR ''.'' \<and> c = CHR '']''"
    then have "a # b # c # r = [] @ ''[.]'' @ r" by simp
    with "1.prems" show False by blast
  qed
  have "\<nexists>u v. b # c # r = u @ ''[.]'' @ v"
  proof
    assume "\<exists>u v. b # c # r = u @ ''[.]'' @ v"
    then obtain u v where "b # c # r = u @ ''[.]'' @ v" by blast
    then have "a # b # c # r = (a # u) @ ''[.]'' @ v" by simp
    with "1.prems" show False by blast
  qed
  with "1.IH"(2) [OF nb] nb show ?case by simp
qed simp_all

lemma refang_Nil_iff: "refang t = [] \<longleftrightarrow> t = []"
  by (induction t rule: refang.induct) auto

lemma int_digits_not_TypeError: "int_digits s n \<noteq> Inl TypeError"
  by (induction s n rule: int_digits.induct) (auto split: list.splits)

lemma py_int_not_TypeError: "py_int s \<noteq> Inl TypeError"
  by (auto simp: py_int_def int_unsigned_def Let_def int_digits_not_TypeError split: list.splits sum.splits)

lemma check_parts_eq: "check_parts parts = Inr (list_all octet_ok parts)"
proof (induction parts)
  case Nil show ?case by simp
next
  case (Cons part parts)
  show ?case
  proof (cases "py_int part")
    case (Inl e)
    with py_int_not_TypeError [of part] have "e = ValueError" by (cases e) auto
    with Inl show ?thesis by (simp add: octet_ok_def)
  next
    case (Inr num)
    with Cons show ?thesis by (auto simp: octet_ok_def)
  qed
qed

lemma validate_ip_eq: "validate_ip v = Inr (octets_valid v)"
  by (simp add: validate_ip_def octets_valid_def Let_def check_parts_eq)

lemma ip_loop_eq:
  "ip_loop ms results = Inr (results \<union> IOC IP ` {v \<in> set ms. octets_valid v})"
  by (induction ms arbitrary: results) (auto simp: validate_ip_eq)

lemma domain_loop_eq:
  "domain_loop ms results =
     results \<union> IOC DOMAIN ` lower ` {m \<in> set ms. \<not> fullmatch IP_PATTERN (lower m)}"
  by (induction ms arbitrary: results) (auto simp: Let_def)

lemma add_loop_eq: "add_loop ty ms results = results \<union> IOC ty ` set ms"
  by (induction ms arbitrary: results) auto

lemma validate_iocs_eq:
  "validate_iocs text = Inr
     (if text = [] then {}
      else IOC IP ` {v \<in> set (finditer IP_PATTERN (refang text)). octets_valid v}
         \<union> IOC DOMAIN ` lower ` {m \<in> set (finditer DOMAIN_PATTERN (refang text)).
                                   \<not> fullmatch IP_PATTERN (lower m)}
         \<union> IOC HASH ` set (finditer HASH_PATTERN (refang text))
         \<union> IOC URL ` set (finditer URL_PATTERN (refang text)))"
  by (auto simp: validate_iocs_def Let_def ip_loop_eq domain_loop_eq add_loop_eq)

lemma extract_iocs_eq:
  "extract_iocs text =
     (if text = [] then {}
      else IOC IP ` {v \<in> set (finditer IP_PATTERN (refang text)). octets_valid v}
         \<union> IOC DOMAIN ` lower ` {m \<in> set (finditer DOMAIN_PATTERN (refang text)).
                                   \<not> fullmatch IP_PATTERN (lower m)}
         \<union> IOC HASH ` set (finditer HASH_PATTERN (refang text))
         \<union> IOC URL ` set (finditer URL_PATTERN (refang text)))"
  by (simp add: extract_iocs_def validate_iocs_eq)

section \<open>Characters\<close>

lemma az_not_digit: "is_az c \<Longrightarrow> \<not> is_digit c"
proof
  assume "is_az c" "is_digit c"
  then have "CHR ''a'' \<le> c" "c \<le> CHR ''9''" by (simp_all add: is_az_def is_digit_def in_range_def)
  then have "CHR ''a'' \<le> CHR ''9''" by (rule order_trans)
  then show False by simp
qed

lemma lower_char_idem: "lower_char (lower_char c) = lower_char c"
  by (auto simp: lower_char_def in_range_def less_eq_char_def)

lemma hex_is_word: "icase is_hex c \<Longrightarrow> is_word c"
  by (auto simp: icase_def is_hex_def is_word_def lower_char_def in_range_def less_eq_char_def split: if_splits)

section \<open>The scenarios\<close>

lemma scenario_domains_eval:
  "extract_iocs ''alpha.com beta.org gamma.net delta.co'' =
     {IOC DOMAIN ''alpha.com'', IOC DOMAIN ''beta.org'', IOC DOMAIN ''gamma.net'',
      IOC DOMAIN ''delta.co''}"
  by code_simp

lemma scenario_url_eval:
  "extract_iocs ''http://malicious[.]example[.]com/path'' =
     {IOC URL ''http://malicious.example.com/path'', IOC DOMAIN ''malicious.example.com''}"
  by code_simp

text \<open>
  C7. For the input \<open>alpha.com beta.org gamma.net delta.co\<close> the result is exactly the four
  domain indicators \<open>alpha.com\<close>, \<open>beta.org\<close>, \<open>gamma.net\<close> and \<open>delta.co\<close>: no IP, hash or
  URL entry and nothing else.
\<close>

theorem four_domains_exactly:
  "extract_iocs ''alpha.com beta.org gamma.net delta.co'' =
     {IOC DOMAIN ''alpha.com'', IOC DOMAIN ''beta.org'', IOC DOMAIN ''gamma.net'',
      IOC DOMAIN ''delta.co''}"
  by (rule scenario_domains_eval)

text \<open>
  C3, as the code has it. For the input \<open>http://malicious[.]example[.]com/path\<close> the result
  is the URL indicator \<open>http://malicious.example.com/path\<close> together with the domain
  indicator \<open>malicious.example.com\<close> for the URL's host, and nothing else.
\<close>

theorem defanged_url_result:
  "extract_iocs ''http://malicious[.]example[.]com/path'' =
     {IOC URL ''http://malicious.example.com/path'', IOC DOMAIN ''malicious.example.com''}"
  by (rule scenario_url_eval)

text \<open>The result is not the one-element set of the URL indicator.\<close>

theorem defanged_url_not_alone:
  "extract_iocs ''http://malicious[.]example[.]com/path'' \<noteq>
     {IOC URL ''http://malicious.example.com/path''}"
proof
  assume "extract_iocs ''http://malicious[.]example[.]com/path'' =
    {IOC URL ''http://malicious.example.com/path''}"
  then have "IOC DOMAIN ''malicious.example.com'' \<in> {IOC URL ''http://malicious.example.com/path''}"
    unfolding scenario_url_eval by blast
  then show False by simp
qed

end
